theory Spec2Isabelle
  imports Complex_Main "HOL-Library.Multiset" "HOL-Library.Log_Nat"
begin

section \<open>Data model\<close>

text \<open>
  The script \<^verbatim>\<open>tv_analysis_clean.py\<close> works on one pandas data frame \<^verbatim>\<open>df\<close> whose nine
  columns, after the renaming of section 2.1, are the fields below. A cell read as NaN is
  \<open>None\<close>; \<^verbatim>\<open>release_year\<close> is an \<^verbatim>\<open>int64\<close> column and has no missing cell. A cell
  of the two \<^verbatim>\<open>float64\<close> columns holds the rational value of its float; infinities are
  not modelled. A data frame is the list of its rows, in order; the index labels are not
  modelled.
\<close>

record row =
  name :: "string option"
  character :: "string option"
  role :: "string option"
  title :: "string option"
  type :: "string option"
  release_year :: int
  genres :: "string option"
  imdb_score :: "rat option"
  imdb_votes :: "rat option"

type_synonym table = "row list"

section \<open>Stage 2: preprocessing\<close>

text \<open>\<^verbatim>\<open>df = df.dropna(subset=['imdb_score', 'imdb_votes'])\<close>: a row goes when either cell
  is missing.\<close>

definition dropna :: "table \<Rightarrow> table" where
  "dropna df = filter (\<lambda>r. imdb_score r \<noteq> None \<and> imdb_votes r \<noteq> None) df"

text \<open>\<^verbatim>\<open>df.duplicated()\<close>: the mask that is true at a row equal, in every column, to an
  earlier row (\<^verbatim>\<open>keep='first'\<close>; two missing cells count as equal). The first argument
  holds the rows already seen.\<close>

fun duplicated_from :: "'a list \<Rightarrow> 'a list \<Rightarrow> bool list" where
  "duplicated_from seen [] = []"
| "duplicated_from seen (x # xs) = (x \<in> set seen) # duplicated_from (x # seen) xs"

definition duplicated :: "'a list \<Rightarrow> bool list" where
  "duplicated df = duplicated_from [] df"

text \<open>\<^verbatim>\<open>df = df.drop_duplicates()\<close>: the rows whose mask is false.\<close>

definition drop_duplicates :: "'a list \<Rightarrow> 'a list" where
  "drop_duplicates df = map fst (filter (\<lambda>p. \<not> snd p) (zip df (duplicated df)))"

text \<open>\<^verbatim>\<open>Series.replace(to_replace, value)\<close> with a list and a scalar, on one cell: a cell
  whose value is in the list becomes \<open>value\<close>, any other cell (a missing one too) stays.\<close>

definition replace :: "string list \<Rightarrow> string \<Rightarrow> string option \<Rightarrow> string option" where
  "replace to_replace val c =
     (case c of None \<Rightarrow> None
      | Some s \<Rightarrow> if s \<in> set to_replace then Some val else Some s)"

text \<open>\<^verbatim>\<open>replace_wrong_shows\<close> assigns the replaced column back to \<^verbatim>\<open>df['type']\<close> and
  returns the frame; the global frame is the third argument here.\<close>

definition replace_wrong_shows :: "string list \<Rightarrow> string \<Rightarrow> table \<Rightarrow> table" where
  "replace_wrong_shows wrong_shows_list correct_show df =
     map (\<lambda>r. r\<lparr>type := replace wrong_shows_list correct_show (type r)\<rparr>) df"

definition wrong_shows_list :: "string list" where
  "wrong_shows_list = [''shows'', ''SHOW'', ''tv show'', ''tv shows'', ''tv series'', ''tv'']"

definition correct_show :: string where
  "correct_show = ''SHOW''"

text \<open>Sections 2.2 to 2.4 in the order the script runs them.\<close>

definition cleaning :: "table \<Rightarrow> table" where
  "cleaning df = replace_wrong_shows wrong_shows_list correct_show (drop_duplicates (dropna df))"

section \<open>Stage 3: analysis\<close>

text \<open>Section 3.1: \<^verbatim>\<open>df[df['release_year'] >= 1999]\<close>, then the rows of that frame with
  \<^verbatim>\<open>type == 'SHOW'\<close>. A missing type compares unequal.\<close>

definition golden_age_shows :: "table \<Rightarrow> table" where
  "golden_age_shows df =
     filter (\<lambda>r. type r = Some ''SHOW'') (filter (\<lambda>r. 1999 \<le> release_year r) df)"

text \<open>\<^verbatim>\<open>Series.round()\<close> with no decimals is numpy's \<^verbatim>\<open>rint\<close>: the nearest integer, a tie
  going to the even neighbour.\<close>

definition round_even :: "rat \<Rightarrow> int" where
  "round_even x =
     (let f = \<lfloor>x\<rfloor>; d = x - of_int f in
      if d < 1 / 2 then f
      else if 1 / 2 < d then f + 1
      else if even f then f else f + 1)"

text \<open>The rounded column keeps its float type; a missing cell stays missing.\<close>

definition round_series :: "rat option \<Rightarrow> rat option" where
  "round_series c = map_option (\<lambda>x. of_int (round_even x)) c"

text \<open>Section 3.2: \<^verbatim>\<open>golden_age_shows['imdb_score'] = golden_age_shows['imdb_score'].round()\<close>
  on a copy of the filtered frame.\<close>

definition golden_age_shows_rounded :: "table \<Rightarrow> table" where
  "golden_age_shows_rounded g = map (\<lambda>r. r\<lparr>imdb_score := round_series (imdb_score r)\<rparr>) g"

text \<open>\<^verbatim>\<open>groupby('imdb_score')\<close>: the group keys are the distinct scores that are present,
  in ascending order; rows with a missing score belong to no group.\<close>

definition group_keys :: "table \<Rightarrow> rat list" where
  "group_keys g = sort (remdups (List.map_filter imdb_score g))"

definition group_rows :: "table \<Rightarrow> rat \<Rightarrow> table" where
  "group_rows g k = filter (\<lambda>r. imdb_score r = Some k) g"

text \<open>\<^verbatim>\<open>nunique()\<close>: the number of distinct values that are present.\<close>

definition nunique :: "'a option list \<Rightarrow> nat" where
  "nunique cs = length (remdups (List.map_filter id cs))"

text \<open>Section 3.3: \<^verbatim>\<open>golden_age_shows.groupby('imdb_score')['title'].nunique()\<close>.\<close>

definition score_counts :: "table \<Rightarrow> (rat \<times> nat) list" where
  "score_counts g = map (\<lambda>k. (k, nunique (map title (group_rows g k)))) (group_keys g)"

text \<open>Section 3.4: the rows with \<^verbatim>\<open>imdb_score >= 4\<close> and \<^verbatim>\<open>imdb_score <= 9\<close>. Both
  comparisons are false on a missing score.\<close>

definition analysis_df :: "table \<Rightarrow> table" where
  "analysis_df g =
     filter (\<lambda>r. (case imdb_score r of None \<Rightarrow> False | Some s \<Rightarrow> 4 \<le> s) \<and>
                 (case imdb_score r of None \<Rightarrow> False | Some s \<Rightarrow> s \<le> 9)) g"

text \<open>The arithmetic of the \<^verbatim>\<open>float64\<close> columns. \<open>exponent x\<close> is the binary exponent of a
  non-zero \<open>x\<close>: \<open>2 powi exponent x \<le> \<bar>x\<bar> < 2 powi (exponent x + 1)\<close>. \<open>fl64\<close> rounds the exact
  result of an operation to the nearest binary64 value: 53 significant bits, ties to the
  even significand, and the fixed spacing \<open>2 powi (- 1074)\<close> below \<open>2 powi (- 1022)\<close>.
  Overflow to infinity is not modelled.\<close>

definition exponent :: "rat \<Rightarrow> int" where
  "exponent x =
     (case quotient_of \<bar>x\<bar> of
        (a, b) \<Rightarrow> let d = bitlen a - bitlen b in if 2 powi d \<le> \<bar>x\<bar> then d else d - 1)"

definition fl64 :: "rat \<Rightarrow> rat" where
  "fl64 x =
     (let q = 2 powi (max (exponent x) (- 1022) - 52) in of_int (round_even (x / q)) * q)"

text \<open>\<^verbatim>\<open>groupby(...).mean()\<close> is pandas' \<^verbatim>\<open>group_mean\<close>: a compensated (Kahan) sum of the
  cells of the group that are present, each operation rounded, divided by their number.
  \<^verbatim>\<open>
  y = val - compensation; t = sumx + y
  compensation = t - sumx - y; sumx = t
  ...
  out = sumx / count
  \<close>\<close>

fun kahan_step :: "rat \<times> rat \<Rightarrow> rat \<Rightarrow> rat \<times> rat" where
  "kahan_step (sumx, compensation) val =
     (let y = fl64 (val - compensation);
          t = fl64 (sumx + y)
      in (t, fl64 (fl64 (t - sumx) - y)))"

definition group_mean :: "rat list \<Rightarrow> rat" where
  "group_mean vs = fl64 (fst (foldl kahan_step (0, 0) vs) / of_nat (length vs))"

text \<open>\<^verbatim>\<open>mean()\<close> of a group skips the missing cells; with no cell left the mean is NaN.\<close>

definition mean :: "rat option list \<Rightarrow> rat option" where
  "mean cs =
     (let vs = List.map_filter id cs in
      if vs = [] then None else Some (group_mean vs))"

text \<open>\<^verbatim>\<open>analysis_df.groupby('imdb_score')['imdb_votes'].mean().round().reset_index()\<close>: one
  row per group, keyed by the score, in ascending order of the score.\<close>

definition avg_votes_by_score :: "table \<Rightarrow> (rat \<times> rat option) list" where
  "avg_votes_by_score a =
     map (\<lambda>k. (k, round_series (mean (map imdb_votes (group_rows a k))))) (group_keys a)"

text \<open>\<^verbatim>\<open>sort_values('avg_votes', ascending=False)\<close>, as pandas computes it: the rows with
  a value are reversed, sorted ascending and reversed again; the rows with NaN follow, in
  their order. numpy's default sort does not fix the order of equal values; the
  ascending sort is taken to be stable here, and no statement below depends on the order
  among equal averages.\<close>

definition sort_values_desc :: "('a \<times> rat option) list \<Rightarrow> ('a \<times> rat option) list" where
  "sort_values_desc xs =
     rev (sort_key (\<lambda>p. the (snd p)) (rev (filter (\<lambda>p. snd p \<noteq> None) xs)))
     @ filter (\<lambda>p. snd p = None) xs"

definition results :: "table \<Rightarrow> (rat \<times> rat option) list" where
  "results a = sort_values_desc (avg_votes_by_score a)"

text \<open>Sections 3.1 to 3.4 on a cleaned frame, and the whole script on a raw one.\<close>

definition aggregate :: "table \<Rightarrow> (rat \<times> rat option) list" where
  "aggregate df = results (analysis_df (golden_age_shows_rounded (golden_age_shows df)))"

definition pipeline :: "table \<Rightarrow> (rat \<times> rat option) list" where
  "pipeline df = aggregate (cleaning df)"

section \<open>Auxiliary notions for the statements\<close>

text \<open>The rows \<^verbatim>\<open>drop_duplicates\<close> keeps, by direct recursion: a row is kept unless it was
  seen before.\<close>

fun undup_from :: "'a list \<Rightarrow> 'a list \<Rightarrow> 'a list" where
  "undup_from seen [] = []"
| "undup_from seen (x # xs) =
     (if x \<in> set seen then undup_from (x # seen) xs else x # undup_from (x # seen) xs)"

text \<open>The order \<^verbatim>\<open>sort_values(ascending=False)\<close> establishes on a column: larger values
  first, NaN after every value.\<close>

definition avg_ge :: "rat option \<Rightarrow> rat option \<Rightarrow> bool" where
  "avg_ge x y =
     (case y of None \<Rightarrow> True
      | Some b \<Rightarrow> (case x of None \<Rightarrow> False | Some a \<Rightarrow> b \<le> a))"

text \<open>A vote count as the data model has it: a cell that is present and holds a
  non-negative integer.\<close>

definition whole_count :: "rat option \<Rightarrow> bool" where
  "whole_count c = (case c of None \<Rightarrow> False | Some v \<Rightarrow> 0 \<le> v \<and> of_int \<lfloor>v\<rfloor> = v)"

text \<open>The mapping of the end-to-end scenario, computed by hand as the specification words
  it: keep the rows with \<open>release_year \<ge> 1999\<close> and category \<open>SHOW\<close>, round each rating,
  group by the rounded rating, average the vote counts of each group.\<close>

definition expected_bucket :: "table \<Rightarrow> rat \<Rightarrow> rat list" where
  "expected_bucket df k =
     map (\<lambda>r. the (imdb_votes r))
       (filter (\<lambda>r. 1999 \<le> release_year r \<and> type r = Some ''SHOW'' \<and>
                    of_int (round_even (the (imdb_score r))) = k) df)"

definition expected_mapping :: "table \<Rightarrow> rat \<Rightarrow> rat option" where
  "expected_mapping df k =
     (if expected_bucket df k = [] then None
      else Some (sum_list (expected_bucket df k) / of_nat (length (expected_bucket df k))))"

section \<open>Concrete tables\<close>

definition mk_row :: "string \<Rightarrow> string \<Rightarrow> int \<Rightarrow> rat option \<Rightarrow> rat option \<Rightarrow> row" where
  "mk_row t ty y s v =
     \<lparr>name = Some ''A'', character = None, role = Some ''ACTOR'', title = Some t,
      type = Some ty, release_year = y, genres = None, imdb_score = s, imdb_votes = v\<rparr>"

definition nine_bucket :: table where
  "nine_bucket =
     [mk_row ''T1'' ''SHOW'' 2008 (Some (93 / 10)) (Some 100000),
      mk_row ''T2'' ''SHOW'' 2011 (Some (87 / 10)) (Some 150000),
      mk_row ''T3'' ''SHOW'' 1999 (Some 9) (Some 130000)]"

definition raw_table :: table where
  "raw_table =
     [mk_row ''T1'' ''tv'' 2008 (Some (75 / 10)) (Some 1200),
      mk_row ''T2'' ''MOVIE'' 2011 (Some (87 / 10)) (Some 150),
      mk_row ''T1'' ''tv'' 2008 (Some (75 / 10)) (Some 1200),
      mk_row ''T3'' ''SHOW'' 1999 None (Some 130),
      mk_row ''T4'' ''SHOW'' 2001 (Some (85 / 10)) (Some 801),
      mk_row ''T5'' ''shows'' 1990 (Some 6) (Some 77),
      mk_row ''T6'' ''tv series'' 2015 (Some (52 / 10)) None,
      mk_row ''T7'' ''SHOW'' 2015 (Some (26 / 10)) (Some 10)]"

definition twin_table :: table where
  "twin_table =
     [mk_row ''T1'' ''tv'' 2008 (Some 8) (Some 1200),
      mk_row ''T1'' ''SHOW'' 2008 (Some 8) (Some 1200)]"

definition sample_table :: table where
  "sample_table =
     [mk_row ''T1'' ''SHOW'' 2008 (Some (93 / 10)) (Some 100000),
      mk_row ''T2'' ''SHOW'' 2011 (Some (87 / 10)) (Some 150000),
      mk_row ''T3'' ''SHOW'' 1999 (Some 9) (Some 130000),
      mk_row ''T4'' ''SHOW'' 2005 (Some (75 / 10)) (Some 1200),
      mk_row ''T5'' ''SHOW'' 2001 (Some (85 / 10)) (Some 801),
      mk_row ''T6'' ''SHOW'' 2010 (Some (52 / 10)) (Some 3000),
      mk_row ''T7'' ''SHOW'' 2012 (Some (49 / 10)) (Some 1000),
      mk_row ''T8'' ''SHOW'' 2003 (Some (26 / 10)) (Some 10),
      mk_row ''T9'' ''MOVIE'' 2010 (Some 9) (Some 999999),
      mk_row ''T10'' ''SHOW'' 1990 (Some (91 / 10)) (Some 5),
      mk_row ''T11'' ''SHOW'' 2020 (Some (98 / 10)) (Some 70)]"

definition scenario_table :: table where
  "scenario_table =
     [mk_row ''T1'' ''SHOW'' 2008 (Some (93 / 10)) (Some 100000),
      mk_row ''T2'' ''SHOW'' 2011 (Some (87 / 10)) (Some 150000),
      mk_row ''T3'' ''SHOW'' 1999 (Some 9) (Some 130000),
      mk_row ''T4'' ''SHOW'' 2020 (Some (98 / 10)) (Some 70),
      mk_row ''T5'' ''SHOW'' 2004 (Some 8) (Some (2 ^ 53)),
      mk_row ''T6'' ''SHOW'' 2006 (Some (81 / 10)) (Some (2 ^ 53 + 2))]"

section \<open>Lemmas about the stages\<close>

subsection \<open>Duplicate removal\<close>

lemma mask_undup_from:
  "map fst (filter (\<lambda>p. \<not> snd p) (zip xs (duplicated_from seen xs))) = undup_from seen xs"
  by (induction xs arbitrary: seen) simp_all

lemma set_undup_from: "set (undup_from seen xs) = set xs - set seen"
  by (induction xs arbitrary: seen) auto

lemma distinct_undup_from: "distinct (undup_from seen xs)"
  by (induction xs arbitrary: seen) (auto simp: set_undup_from)

lemma undup_from_fixed:
  "distinct xs \<Longrightarrow> set xs \<inter> set seen = {} \<Longrightarrow> undup_from seen xs = xs"
  by (induction xs arbitrary: seen) auto

lemma undup_from_snoc:
  "undup_from seen (xs @ [x]) =
     (if x \<in> set seen \<union> set xs then undup_from seen xs else undup_from seen xs @ [x])"
  by (induction xs arbitrary: seen) auto

lemma drop_duplicates_undup: "drop_duplicates df = undup_from [] df"
  by (simp add: drop_duplicates_def duplicated_def mask_undup_from)

lemma set_drop_duplicates: "set (drop_duplicates df) = set df"
  by (simp add: drop_duplicates_undup set_undup_from)

lemma distinct_drop_duplicates: "distinct (drop_duplicates df)"
  by (simp add: drop_duplicates_undup distinct_undup_from)

lemma drop_duplicates_fixed: "distinct df \<Longrightarrow> drop_duplicates df = df"
  by (simp add: drop_duplicates_undup undup_from_fixed)

lemma drop_duplicates_snoc:
  "drop_duplicates (xs @ [x]) = (if x \<in> set xs then drop_duplicates xs else drop_duplicates xs @ [x])"
  by (simp add: drop_duplicates_undup undup_from_snoc)

subsection \<open>Missing values and category labels\<close>

lemma set_dropna: "set (dropna df) = {r \<in> set df. imdb_score r \<noteq> None \<and> imdb_votes r \<noteq> None}"
  by (simp add: dropna_def)

lemma replace_wrong_shows_score:
  "r \<in> set (replace_wrong_shows ws c df) \<Longrightarrow>
   \<exists>r' \<in> set df. imdb_score r = imdb_score r' \<and> imdb_votes r = imdb_votes r'"
  by (auto simp: replace_wrong_shows_def)

lemma replace_idem: "replace ws c (replace ws c v) = replace ws c v"
  by (simp add: replace_def split: option.splits)

subsection \<open>Grouping\<close>

lemma set_map_filter_Some: "set (List.map_filter f xs) = {y. \<exists>x \<in> set xs. f x = Some y}"
  by (induction xs) (auto split: option.splits)

lemma set_group_keys: "set (group_keys g) = {k. \<exists>r \<in> set g. imdb_score r = Some k}"
  by (simp add: group_keys_def set_map_filter_Some)

lemma distinct_group_keys: "distinct (group_keys g)"
  by (simp add: group_keys_def)

lemma sorted_group_keys: "sorted (group_keys g)"
  by (simp add: group_keys_def)

lemma group_keys_nonempty: "k \<in> set (group_keys g) \<longleftrightarrow> group_rows g k \<noteq> []"
  by (auto simp: set_group_keys group_rows_def filter_empty_conv)

subsection \<open>Sorting by average\<close>

lemma mset_sort_values_desc: "mset (sort_values_desc xs) = mset xs"
proof -
  have "mset (sort_values_desc xs) =
        mset (filter (\<lambda>p. snd p \<noteq> None) xs) + mset (filter (\<lambda>p. \<not> snd p \<noteq> None) xs)"
    by (simp add: sort_values_desc_def)
  then show ?thesis
    by (simp only: mset_filter multiset_partition [symmetric])
qed

lemma set_sort_values_desc: "set (sort_values_desc xs) = set xs"
  using mset_sort_values_desc [of xs] by (metis set_mset_mset)

lemma sorted_desc_rev_sort_key:
  "sorted_wrt (\<lambda>p q. f q \<le> f p) (rev (sort_key f ys))"
proof -
  have "sorted (map f (sort_key f ys))" by (rule sorted_sort_key)
  then have "sorted_wrt (\<lambda>p q. f p \<le> f q) (sort_key f ys)"
    by (simp add: sorted_map)
  then show ?thesis by (simp add: sorted_wrt_rev)
qed

lemma avg_ge_Some: "x \<noteq> None \<Longrightarrow> y \<noteq> None \<Longrightarrow> the y \<le> the x \<Longrightarrow> avg_ge x y"
  by (auto simp: avg_ge_def)

lemma avg_ge_None: "avg_ge x None"
  by (simp add: avg_ge_def)

lemma sorted_avg_ge_append:
  assumes S: "\<forall>p \<in> set S. snd p \<noteq> None"
    and desc: "sorted_wrt (\<lambda>p q. the (snd q) \<le> the (snd p)) S"
    and N: "\<forall>q \<in> set N. snd q = None"
  shows "sorted_wrt (\<lambda>p q. avg_ge (snd p) (snd q)) (S @ N)"
proof -
  have 1: "sorted_wrt (\<lambda>p q. avg_ge (snd p) (snd q)) S"
  proof (rule sorted_wrt_mono_rel [OF _ desc])
    fix p q assume "p \<in> set S" "q \<in> set S" "the (snd q) \<le> the (snd p)"
    with S show "avg_ge (snd p) (snd q)" by (simp add: avg_ge_Some)
  qed
  have 2: "sorted_wrt (\<lambda>p q. avg_ge (snd p) (snd q)) N"
  proof (rule sorted_wrt_mono_rel [where P = "\<lambda>p q. True"])
    fix p q assume "q \<in> set N"
    with N show "avg_ge (snd p) (snd q)" by (simp add: avg_ge_None)
  next
    show "sorted_wrt (\<lambda>p q. True) N" by (induction N) simp_all
  qed
  have 3: "\<forall>p \<in> set S. \<forall>q \<in> set N. avg_ge (snd p) (snd q)"
    using N by (simp add: avg_ge_None)
  from 1 2 3 show ?thesis by (simp add: sorted_wrt_append)
qed

lemma sorted_sort_values_desc:
  "sorted_wrt (\<lambda>p q. avg_ge (snd p) (snd q)) (sort_values_desc xs)"
  unfolding sort_values_desc_def
  by (rule sorted_avg_ge_append) (simp_all add: sorted_desc_rev_sort_key)

lemma map_fst_avg: "map fst (avg_votes_by_score a) = group_keys a"
  by (simp add: avg_votes_by_score_def comp_def)

lemma distinct_keys_results: "distinct (map fst (results a))"
proof -
  have "mset (map fst (results a)) = mset (group_keys a)"
    by (simp add: results_def mset_sort_values_desc map_fst_avg [symmetric] del: mset_map)
       (metis mset_map mset_sort_values_desc)
  then show ?thesis
    by (metis distinct_group_keys mset_eq_imp_distinct_iff)
qed

lemma map_of_avg:
  "map_of (avg_votes_by_score a) k =
     (if group_rows a k = [] then None
      else Some (round_series (mean (map imdb_votes (group_rows a k)))))"
  by (simp add: avg_votes_by_score_def map_of_map_restrict restrict_map_def group_keys_nonempty)

lemma map_of_results: "map_of (results a) = map_of (avg_votes_by_score a)"
proof -
  have "distinct (map fst (avg_votes_by_score a))"
    by (simp add: map_fst_avg distinct_group_keys)
  moreover have "set (results a) = set (avg_votes_by_score a)"
    by (simp add: results_def set_sort_values_desc)
  ultimately show ?thesis
    using distinct_keys_results [of a] by (simp add: map_of_inject_set)
qed

subsection \<open>Rounding to binary64\<close>

lemma pow2_bitlen_bounds:
  assumes "0 < a"
  shows "(2::rat) powi (bitlen a - 1) \<le> of_int a" "of_int a < (2::rat) powi (bitlen a)"
proof -
  from assms have pos: "1 \<le> bitlen a"
    by (simp add: bitlen_alt_def)
  from bitlen_bounds [OF assms] have b: "2 ^ nat (bitlen a - 1) \<le> a" "a < 2 ^ nat (bitlen a)"
    by simp_all
  have "(2::rat) powi (bitlen a - 1) = of_int (2 ^ nat (bitlen a - 1))"
    using pos by (simp add: power_int_def)
  also have "\<dots> \<le> of_int a"
    using b(1) by (simp only: of_int_le_iff)
  finally show "(2::rat) powi (bitlen a - 1) \<le> of_int a" .
  have "(of_int a :: rat) < of_int (2 ^ nat (bitlen a))"
    using b(2) by (simp only: of_int_less_iff)
  also have "\<dots> = 2 powi (bitlen a)"
    using pos by (simp add: power_int_def)
  finally show "of_int a < (2::rat) powi (bitlen a)" .
qed

lemma exponent_bounds:
  assumes "x \<noteq> 0"
  shows "2 powi (exponent x) \<le> \<bar>x\<bar>" "\<bar>x\<bar> < 2 powi (exponent x + 1)"
proof -
  obtain a b where q: "quotient_of \<bar>x\<bar> = (a, b)"
    by (cases "quotient_of \<bar>x\<bar>")
  then have b: "0 < b" and x: "\<bar>x\<bar> = of_int a / of_int b"
    by (simp_all add: quotient_of_denom_pos quotient_of_div)
  from assms have "0 < \<bar>x\<bar>" by simp
  with x b have a: "0 < a"
    by (simp add: zero_less_divide_iff)
  define d where "d = bitlen a - bitlen b"
  have e: "exponent x = (if 2 powi d \<le> \<bar>x\<bar> then d else d - 1)"
    by (simp add: exponent_def q d_def Let_def)
  note A = pow2_bitlen_bounds [OF a] and B = pow2_bitlen_bounds [OF b]
  have bpos: "(0::rat) < of_int b" using b by simp
  have lower: "2 powi (d - 1) \<le> \<bar>x\<bar>"
  proof -
    have "(2::rat) powi (d - 1) = 2 powi (bitlen a - 1) / 2 powi (bitlen b)"
      by (simp add: d_def power_int_diff [symmetric] algebra_simps)
    also have "\<dots> \<le> of_int a / 2 powi (bitlen b)"
      using A(1) by (simp add: divide_right_mono)
    also have "\<dots> \<le> of_int a / of_int b"
      using B(2) a bpos by (simp add: frac_le)
    finally show ?thesis by (simp add: x)
  qed
  have upper: "\<bar>x\<bar> < 2 powi (d + 1)"
  proof -
    have "\<bar>x\<bar> = of_int a / of_int b" by (rule x)
    also have "\<dots> < 2 powi (bitlen a) / of_int b"
      using A(2) bpos by (simp add: divide_strict_right_mono)
    also have "\<dots> \<le> 2 powi (bitlen a) / 2 powi (bitlen b - 1)"
      using B(1) bpos by (intro divide_left_mono) (simp_all add: zero_less_power_int)
    also have "\<dots> = 2 powi (d + 1)"
      by (simp add: d_def power_int_diff [symmetric] algebra_simps)
    finally show ?thesis .
  qed
  show "2 powi (exponent x) \<le> \<bar>x\<bar>"
    using lower by (simp add: e)
  show "\<bar>x\<bar> < 2 powi (exponent x + 1)"
    using upper by (auto simp: e not_le)
qed


lemma round_even_nearest: "\<bar>of_int (round_even x) - x\<bar> \<le> 1 / 2"
proof -
  have "of_int \<lfloor>x\<rfloor> \<le> x" "x < of_int \<lfloor>x\<rfloor> + 1"
    by linarith+
  then show ?thesis
    by (auto simp: round_even_def Let_def)
qed

lemma round_even_of_int: "round_even (of_int m) = m"
  by (simp add: round_even_def)

lemma round_even_unique:
  assumes "of_int k - 1 / 2 < y" "y < of_int k + 1 / 2"
  shows "round_even y = k"
proof -
  have "\<lfloor>y\<rfloor> = k \<or> \<lfloor>y\<rfloor> = k - 1"
    using assms by linarith
  then show ?thesis
  proof
    assume "\<lfloor>y\<rfloor> = k"
    with assms show ?thesis by (simp add: round_even_def Let_def)
  next
    assume f: "\<lfloor>y\<rfloor> = k - 1"
    with assms have "1 / 2 < y - of_int (k - 1)" by simp
    with f show ?thesis by (simp add: round_even_def Let_def)
  qed
qed

lemma round_even_tie_or_inside:
  "x = of_int \<lfloor>x\<rfloor> + 1 / 2 \<or>
   (of_int (round_even x) - 1 / 2 < x \<and> x < of_int (round_even x) + 1 / 2)"
proof -
  define d where "d = x - of_int \<lfloor>x\<rfloor>"
  have d: "0 \<le> d" "d < 1"
    unfolding d_def by linarith+
  have x: "x = of_int \<lfloor>x\<rfloor> + d"
    by (simp add: d_def)
  consider "d < 1 / 2" | "1 / 2 < d" | "d = 1 / 2"
    by linarith
  then show ?thesis
  proof cases
    case 1
    then have "round_even x = \<lfloor>x\<rfloor>"
      by (simp add: round_even_def Let_def d_def)
    with 1 d x show ?thesis by linarith
  next
    case 2
    then have "round_even x = \<lfloor>x\<rfloor> + 1"
      by (simp add: round_even_def Let_def d_def)
    with 2 d x show ?thesis by simp
  next
    case 3
    with x show ?thesis by simp
  qed
qed

lemma fl64_error: "\<bar>fl64 x - x\<bar> \<le> 2 powi (max (exponent x) (- 1022) - 53)"
proof -
  define q :: rat where "q = 2 powi (max (exponent x) (- 1022) - 52)"
  have qpos: "0 < q" by (simp add: q_def zero_less_power_int)
  have half: "q / 2 = 2 powi (max (exponent x) (- 1022) - 53)"
  proof -
    have "(2::rat) powi (max (exponent x) (- 1022) - 53) = 2 powi (max (exponent x) (- 1022) - 52 - 1)"
      by (simp add: algebra_simps)
    also have "\<dots> = q / 2"
      unfolding q_def by (subst power_int_diff) simp_all
    finally show ?thesis by simp
  qed
  have "fl64 x - x = (of_int (round_even (x / q)) - x / q) * q"
    using qpos by (simp add: fl64_def q_def [symmetric] Let_def algebra_simps)
  then have "\<bar>fl64 x - x\<bar> = \<bar>of_int (round_even (x / q)) - x / q\<bar> * q"
    using qpos by (simp add: abs_mult)
  also have "\<dots> \<le> 1 / 2 * q"
    using round_even_nearest [of "x / q"] qpos by (intro mult_right_mono) simp_all
  finally show ?thesis by (simp add: half [symmetric])
qed

lemma fl64_exact:
  assumes "x = of_int m * 2 powi (max (exponent x) (- 1022) - 52)"
  shows "fl64 x = x"
proof -
  define q :: rat where "q = 2 powi (max (exponent x) (- 1022) - 52)"
  have qpos: "0 < q" by (simp add: q_def zero_less_power_int)
  from assms have "x / q = of_int m"
    using qpos by (simp add: q_def [symmetric])
  then have "fl64 x = of_int m * q"
    by (simp add: fl64_def q_def [symmetric] Let_def round_even_of_int)
  with assms show ?thesis by (simp add: q_def)
qed

lemma fl64_zero: "fl64 0 = 0"
  by (simp add: fl64_def Let_def round_even_def)

lemma fl64_half_nat:
  assumes "m < 2 ^ 53"
  shows "fl64 (of_nat m / 2) = of_nat m / 2"
proof (cases "m = 0")
  case True
  then show ?thesis by (simp add: fl64_zero)
next
  case False
  define x :: rat where "x = of_nat m / 2"
  define e where "e = exponent x"
  from False have xpos: "0 < x" and xne: "x \<noteq> 0" and xge: "1 / 2 \<le> x"
    by (simp_all add: x_def)
  have "x < 2 ^ 52"
  proof -
    have "(of_nat m :: rat) < of_nat (2 ^ 53)"
      using assms by (simp only: of_nat_less_iff)
    then show ?thesis by (simp add: x_def)
  qed
  with exponent_bounds(1) [OF xne] xpos have "(2::rat) powi e < 2 powi 52"
    by (simp add: e_def)
  then have e_le: "e \<le> 51"
    using power_int_increasing [of 52 e "2::rat"] by (cases "e \<le> 51") auto
  from exponent_bounds(2) [OF xne] xpos xge have "(2::rat) powi (- 1) < 2 powi (e + 1)"
    by (simp add: e_def)
  then have e_ge: "- 1 \<le> e"
    using power_int_increasing [of "e + 1" "- 1" "2::rat"] by (cases "- 1 \<le> e") auto
  have mx: "max e (- 1022) = e" using e_ge by simp
  have "(2::rat) powi (e - 52) * 2 ^ nat (51 - e) = 2 powi (e - 52) * 2 powi (51 - e)"
    using e_le by (simp add: power_int_def)
  also have "\<dots> = 2 powi (- 1)"
    by (subst power_int_add [symmetric]) simp_all
  finally have "(2::rat) powi (e - 52) * 2 ^ nat (51 - e) = 1 / 2"
    by simp
  then have "x = of_int (int m * 2 ^ nat (51 - e)) * 2 powi (e - 52)"
    by (simp add: x_def algebra_simps)
  then have "x = of_int (int m * 2 ^ nat (51 - e)) * 2 powi (max (exponent x) (- 1022) - 52)"
    using mx by (simp add: e_def)
  then have "fl64 x = x" by (rule fl64_exact)
  then show ?thesis by (simp add: x_def)
qed

lemma fl64_of_nat:
  assumes "n < 2 ^ 52"
  shows "fl64 (of_nat n) = of_nat n"
proof -
  from assms have "2 * n < 2 ^ 53" by simp
  from fl64_half_nat [OF this] show ?thesis by simp
qed


lemma kahan_step_exact:
  assumes "a + v < 2 ^ 52"
  shows "kahan_step (of_nat a, 0) (of_nat v) = (of_nat (a + v), 0)"
proof -
  from assms have v: "v < 2 ^ 52" by simp
  have y: "fl64 (of_nat v) = of_nat v"
    using v by (rule fl64_of_nat)
  have t: "fl64 (of_nat a + of_nat v) = of_nat (a + v)"
    using fl64_of_nat [OF assms] by simp
  have d: "fl64 (of_nat (a + v) - of_nat a) = of_nat v"
    using y by simp
  show ?thesis
    by (simp add: Let_def y t d fl64_zero del: of_nat_add)
qed

lemma kahan_sum_exact:
  "a + sum_list ns < 2 ^ 52 \<Longrightarrow>
   foldl kahan_step (of_nat a, 0) (map of_nat ns) = (of_nat (a + sum_list ns), 0)"
proof (induction ns arbitrary: a)
  case Nil
  then show ?case by simp
next
  case (Cons n ns)
  then have "a + n < 2 ^ 52" by simp
  then have "kahan_step (of_nat a, 0) (of_nat n) = (of_nat (a + n), 0)"
    by (rule kahan_step_exact)
  moreover have "(a + n) + sum_list ns < 2 ^ 52"
    using Cons.prems by (simp add: add.assoc)
  ultimately show ?case
    using Cons.IH [of "a + n"] by (simp add: add.assoc del: kahan_step.simps)
qed

lemma round_even_fl64_quotient:
  assumes s: "s < 2 ^ 52" and n: "0 < n"
  shows "round_even (fl64 (of_nat s / of_nat n)) = round_even (of_nat s / of_nat n)"
proof (cases "s = 0")
  case True
  then show ?thesis by (simp add: fl64_zero)
next
  case False
  define x :: rat where "x = of_nat s / of_nat n"
  define k where "k = round_even x"
  have npos: "(0::rat) < of_nat n" using n by simp
  have xpos: "0 < x" and xne: "x \<noteq> 0"
    using False n by (simp_all add: x_def)
  have s_lt: "(of_nat s :: rat) < 2 ^ 52"
  proof -
    have "(of_nat s :: rat) < of_nat (2 ^ 52)"
      using s by (simp only: of_nat_less_iff)
    then show ?thesis by simp
  qed
  have x_lt: "x < 2 ^ 52"
  proof -
    have "of_nat s / of_nat n \<le> (of_nat s :: rat) / 1"
      using n by (intro divide_left_mono) simp_all
    with s_lt show ?thesis by (simp add: x_def)
  qed
  from round_even_tie_or_inside [of x] show ?thesis
  proof
    assume tie: "x = of_int \<lfloor>x\<rfloor> + 1 / 2"
    have "0 \<le> \<lfloor>x\<rfloor>" using xpos by simp
    define m where "m = nat (2 * \<lfloor>x\<rfloor> + 1)"
    have xm: "x = of_nat m / 2"
    proof -
      have "(of_nat m :: rat) = of_int (2 * \<lfloor>x\<rfloor> + 1)"
        unfolding m_def using \<open>0 \<le> \<lfloor>x\<rfloor>\<close> by (simp del: of_int_add of_int_mult)
      also have "\<dots> = 2 * x"
        using tie by simp
      finally show ?thesis by simp
    qed
    have "(of_nat m :: rat) < of_nat (2 ^ 53)"
      using x_lt by (simp add: xm)
    then have "m < 2 ^ 53"
      by (simp only: of_nat_less_iff)
    then have "fl64 x = x"
      unfolding xm by (rule fl64_half_nat)
    then show ?thesis by (simp add: x_def)
  next
    assume "of_int (round_even x) - 1 / 2 < x \<and> x < of_int (round_even x) + 1 / 2"
    then have lo: "of_int k - 1 / 2 < x" and hi: "x < of_int k + 1 / 2"
      by (simp_all add: k_def)
    define g :: rat where "g = 1 / (2 * of_nat n)"
    have gpos: "0 < g" using npos by (simp add: g_def)
    have gap_lo: "of_int k - 1 / 2 + g \<le> x"
    proof -
      define N where "N = 2 * int s - (2 * k - 1) * int n"
      have eq: "x - (of_int k - 1 / 2) = of_int N / (2 * of_nat n)"
        using npos by (simp add: x_def N_def field_simps)
      from lo have "0 < x - (of_int k - 1 / 2)"
        by simp
      then have "(0::rat) < of_int N / (2 * of_nat n)"
        by (simp only: eq)
      with npos have "(0::rat) < of_int N"
        by (simp add: zero_less_divide_iff)
      then have "0 < N"
        by (simp only: of_int_0_less_iff)
      then have "1 \<le> N"
        by linarith
      then have "(1::rat) \<le> of_int N"
        by (simp only: of_int_1_le_iff)
      then have "g \<le> of_int N / (2 * of_nat n)"
        unfolding g_def using npos by (intro divide_right_mono) simp_all
      with eq show ?thesis by linarith
    qed
    have gap_hi: "x + g \<le> of_int k + 1 / 2"
    proof -
      define N where "N = (2 * k + 1) * int n - 2 * int s"
      have eq: "of_int k + 1 / 2 - x = of_int N / (2 * of_nat n)"
        using npos by (simp add: x_def N_def field_simps)
      from hi have "0 < of_int k + 1 / 2 - x"
        by simp
      then have "(0::rat) < of_int N / (2 * of_nat n)"
        by (simp only: eq)
      with npos have "(0::rat) < of_int N"
        by (simp add: zero_less_divide_iff)
      then have "0 < N"
        by (simp only: of_int_0_less_iff)
      then have "1 \<le> N"
        by linarith
      then have "(1::rat) \<le> of_int N"
        by (simp only: of_int_1_le_iff)
      then have "g \<le> of_int N / (2 * of_nat n)"
        unfolding g_def using npos by (intro divide_right_mono) simp_all
      with eq show ?thesis by linarith
    qed
    have inside: "of_int k - 1 / 2 < fl64 x \<and> fl64 x < of_int k + 1 / 2"
    proof (cases "- 1022 \<le> exponent x")
      case True
      then have "\<bar>fl64 x - x\<bar> \<le> 2 powi (exponent x - 53)"
        using fl64_error [of x] by (simp add: max_def)
      also have "(2::rat) powi (exponent x - 53) = 2 powi (exponent x) / 2 ^ 53"
        by (subst power_int_diff) simp_all
      also have "\<dots> \<le> x / 2 ^ 53"
        using exponent_bounds(1) [OF xne] xpos by (simp add: divide_right_mono)
      also have "\<dots> < g"
      proof -
        have "x / 2 ^ 53 = of_nat s / 2 ^ 53 / of_nat n"
          by (simp add: x_def)
        also have "\<dots> < 2 ^ 52 / 2 ^ 53 / of_nat n"
          using s_lt npos by (intro divide_strict_right_mono) simp_all
        also have "\<dots> = g"
          by (simp add: g_def)
        finally show ?thesis .
      qed
      finally have "\<bar>fl64 x - x\<bar> < g" .
      with gap_lo gap_hi show ?thesis by linarith
    next
      case False
      then have small: "exponent x + 1 \<le> - 1022" by simp
      have "x < 2 powi (exponent x + 1)"
        using exponent_bounds(2) [OF xne] xpos by simp
      also have "\<dots> \<le> 2 powi (- 2)"
        using small by (intro power_int_increasing) simp_all
      finally have x_small: "x < 1 / 4" by simp
      then have "round_even x = 0"
        using xpos by (intro round_even_unique) simp_all
      then have k0: "k = 0" by (simp add: k_def)
      have "\<bar>fl64 x - x\<bar> \<le> 2 powi (- 1075)"
        using fl64_error [of x] False by (simp add: max_def)
      also have "(2::rat) powi (- 1075) \<le> 2 powi (- 2)"
        by (intro power_int_increasing) simp_all
      finally have err: "\<bar>fl64 x - x\<bar> \<le> 1 / 4" by simp
      have "- (1 / 2) < fl64 x"
        using err xpos by linarith
      moreover have "fl64 x < 1 / 2"
        using err x_small by linarith
      ultimately show ?thesis by (simp add: k0)
    qed
    then have "round_even (fl64 x) = k"
      by (intro round_even_unique) simp_all
    then show ?thesis by (simp add: k_def x_def)
  qed
qed

subsection \<open>Filtering, means and buckets\<close>

lemma golden_age_shows_conj:
  "golden_age_shows df = filter (\<lambda>r. 1999 \<le> release_year r \<and> type r = Some ''SHOW'') df"
  by (simp add: golden_age_shows_def conj_commute)

lemma map_filter_id_present:
  "\<forall>c \<in> set cs. c \<noteq> None \<Longrightarrow> List.map_filter id cs = map the cs"
  by (induction cs) auto

lemma whole_count_of_nat: "whole_count c \<Longrightarrow> c = Some (of_nat (nat \<lfloor>the c\<rfloor>))"
  by (cases c) (auto simp: whole_count_def)

lemma whole_counts_of_nat:
  "\<forall>c \<in> set cs. whole_count c \<Longrightarrow> cs = map (\<lambda>n. Some (of_nat n)) (map (\<lambda>c. nat \<lfloor>the c\<rfloor>) cs)"
proof (induction cs)
  case Nil
  then show ?case by simp
next
  case (Cons c cs)
  then have "c = Some (of_nat (nat \<lfloor>the c\<rfloor>))"
    by (simp add: whole_count_of_nat)
  with Cons show ?case by simp
qed

lemma mean_of_nats:
  assumes "ns \<noteq> []" "sum_list ns < 2 ^ 52"
  shows "round_series (mean (map (\<lambda>n. Some (of_nat n)) ns)) =
     Some (of_int (round_even (of_nat (sum_list ns) / of_nat (length ns))))"
proof -
  have present: "List.map_filter id (map (\<lambda>n. Some (rat_of_nat n)) ns) = map of_nat ns"
    by (induction ns) simp_all
  have "foldl kahan_step (of_nat 0, 0) (map of_nat ns) = (of_nat (0 + sum_list ns), 0)"
    using assms(2) by (intro kahan_sum_exact) simp
  then have "group_mean (map of_nat ns) = fl64 (of_nat (sum_list ns) / of_nat (length ns))"
    by (simp add: group_mean_def)
  moreover have "round_even (fl64 (of_nat (sum_list ns) / of_nat (length ns))) =
      round_even (of_nat (sum_list ns) / of_nat (length ns))"
    using assms by (intro round_even_fl64_quotient) simp_all
  ultimately show ?thesis
    using assms(1) by (simp add: mean_def present round_series_def)
qed

lemma mean_whole_counts:
  assumes whole: "\<forall>c \<in> set cs. whole_count c" and ne: "cs \<noteq> []"
    and bound: "sum_list (map the cs) < 2 ^ 52"
  shows "round_series (mean cs) =
     Some (of_int (round_even (sum_list (map the cs) / of_nat (length cs))))"
proof -
  define ns where "ns = map (\<lambda>c. nat \<lfloor>the c\<rfloor>) cs"
  have cs: "cs = map (\<lambda>n. Some (of_nat n)) ns"
    unfolding ns_def using whole by (rule whole_counts_of_nat)
  have vals: "map the cs = map of_nat ns"
    by (subst cs) (simp add: comp_def)
  have total: "sum_list (map the cs) = of_nat (sum_list ns)"
    unfolding vals by (induction ns) simp_all
  have len: "length cs = length ns"
    by (simp add: ns_def)
  have "(of_nat (sum_list ns) :: rat) < of_nat (2 ^ 52)"
    using bound by (simp add: total)
  then have small: "sum_list ns < 2 ^ 52"
    by (simp only: of_nat_less_iff)
  have "ns \<noteq> []" using ne by (simp add: ns_def)
  from mean_of_nats [OF this small] show ?thesis
    unfolding total len by (subst cs) simp
qed

lemma nunique_card: "nunique cs = card {t. Some t \<in> set cs}"
proof -
  have "set (List.map_filter id cs) = {t. Some t \<in> set cs}"
    by (auto simp: set_map_filter_Some)
  then show ?thesis
    by (simp add: nunique_def length_remdups_card_conv)
qed

lemma group_rows_aggregate:
  assumes "\<forall>r \<in> set df. imdb_score r \<noteq> None"
  shows "map imdb_votes (group_rows (analysis_df (golden_age_shows_rounded (golden_age_shows df))) k) =
     (if 4 \<le> k \<and> k \<le> 9
      then map imdb_votes (filter (\<lambda>r. 1999 \<le> release_year r \<and> type r = Some ''SHOW'' \<and>
                    of_int (round_even (the (imdb_score r))) = k) df)
      else [])"
proof -
  have "map imdb_votes (group_rows (analysis_df (golden_age_shows_rounded (golden_age_shows df))) k) =
        map imdb_votes (filter (\<lambda>r. 4 \<le> k \<and> k \<le> 9 \<and> 1999 \<le> release_year r \<and> type r = Some ''SHOW'' \<and>
                    of_int (round_even (the (imdb_score r))) = k) df)"
    unfolding group_rows_def analysis_df_def golden_age_shows_rounded_def golden_age_shows_conj
      filter_map filter_filter map_map
    apply (rule arg_cong2 [where f = map])
     apply (simp add: comp_def)
    apply (rule filter_cong [OF refl])
    using assms apply (auto simp: round_series_def)
    done
  then show ?thesis by (simp cong: conj_cong)
qed

lemma round_series_Some:
  "round_series c = Some v \<Longrightarrow> \<exists>m. c = Some m \<and> v = of_int (round_even m)"
  by (cases c) (auto simp: round_series_def)

lemma results_nil: "results [] = []"
  by (simp add: results_def avg_votes_by_score_def group_keys_def sort_values_desc_def)

text \<open>Duplicates are removed before the category labels are unified, so two rows that
  differ only in the spelling of the category are both kept and are equal afterwards.\<close>

lemma cleaning_twin_table: "\<not> distinct (cleaning twin_table)"
  by code_simp

section \<open>Properties of the pipeline\<close>

text \<open>
  Claim C1, as amended. On a frame whose ratings are present and whose vote counts are
  present non-negative integers, the aggregation (filter to \<open>release_year \<ge> 1999\<close> and
  category \<open>SHOW\<close>, round each rating, group by the rounded rating, average the vote counts
  of each group) reports, for each rounded rating between 4 and 9 whose bucket has a vote
  total below \<open>2 ^ 52\<close>, the hand-computed average of the bucket rounded to the nearest
  integer, and reports nothing for a rating outside 4 to 9. The bucket with votes 100000,
  150000 and 130000 is reported as 126667.
\<close>

theorem aggregate_expected_mapping:
  assumes "\<forall>r \<in> set df. imdb_score r \<noteq> None \<and> whole_count (imdb_votes r)"
    and "sum_list (expected_bucket df k) < 2 ^ 52"
  shows "map_of (aggregate df) k =
     (if 4 \<le> k \<and> k \<le> 9
      then map_option (\<lambda>m. Some (of_int (round_even m))) (expected_mapping df k)
      else None)"
proof -
  define a where "a = analysis_df (golden_age_shows_rounded (golden_age_shows df))"
  define rows where "rows = filter (\<lambda>r. 1999 \<le> release_year r \<and> type r = Some ''SHOW'' \<and>
                    of_int (round_even (the (imdb_score r))) = k) df"
  define vs where "vs = map imdb_votes rows"
  have sc: "\<forall>r \<in> set df. imdb_score r \<noteq> None"
    using assms(1) by blast
  have votes: "map imdb_votes (group_rows a k) = (if 4 \<le> k \<and> k \<le> 9 then vs else [])"
    unfolding a_def rows_def vs_def by (rule group_rows_aggregate [OF sc])
  have lookup: "map_of (aggregate df) k =
      (if group_rows a k = [] then None
       else Some (round_series (mean (map imdb_votes (group_rows a k)))))"
    unfolding a_def aggregate_def map_of_results by (rule map_of_avg)
  have bucket: "expected_bucket df k = map the vs"
    unfolding expected_bucket_def vs_def rows_def by (simp add: comp_def)
  have whole: "\<forall>c \<in> set vs. whole_count c"
    using assms(1) unfolding vs_def rows_def by auto
  have bound: "sum_list (map the vs) < 2 ^ 52"
    using assms(2) by (simp only: bucket)
  have mean_vs: "round_series (mean vs) =
      Some (of_int (round_even (sum_list (map the vs) / of_nat (length vs))))" if "vs \<noteq> []"
    using whole that bound by (rule mean_whole_counts)
  have empty_iff: "group_rows a k = [] \<longleftrightarrow> map imdb_votes (group_rows a k) = []"
    by simp
  show ?thesis
  proof (cases "4 \<le> k \<and> k \<le> 9")
    case window: True
    show ?thesis
    proof (cases "vs = []")
      case True
      then show ?thesis
        unfolding lookup empty_iff votes expected_mapping_def bucket using window by simp
    next
      case False
      then show ?thesis
        unfolding lookup empty_iff votes expected_mapping_def bucket
        using window mean_vs by simp
    qed
  next
    case False
    with votes have "map imdb_votes (group_rows a k) = []"
      by simp
    then have "group_rows a k = []"
      by simp
    with lookup False show ?thesis
      by auto
  qed
qed

theorem aggregate_expected_mapping_witness:
  "list_all (\<lambda>r. imdb_score r \<noteq> None \<and> whole_count (imdb_votes r)) nine_bucket \<and>
   sum_list (expected_bucket nine_bucket 9) = 380000 \<and>
   expected_mapping nine_bucket 9 = Some (380000 / 3) \<and>
   map_of (aggregate nine_bucket) 9 = Some (Some 126667)"
proof -
  have h: "\<forall>r \<in> set nine_bucket. imdb_score r \<noteq> None \<and> whole_count (imdb_votes r)"
    by code_simp
  have t: "sum_list (expected_bucket nine_bucket 9) = 380000"
    by code_simp
  then have b: "sum_list (expected_bucket nine_bucket 9) < 2 ^ 52"
    by simp
  have e: "expected_mapping nine_bucket 9 = Some (380000 / 3)"
    by code_simp
  have r: "round_even (380000 / 3) = 126667"
    by code_simp
  show ?thesis
    using h t e r aggregate_expected_mapping [OF h b] by (simp add: list_all_iff)
qed

text \<open>Claim C1 as stated fails on one table in three ways. The bucket of rating 9 with
  votes 100000, 150000 and 130000 is reported as 126667, not as 127000. The bucket of
  rating 10 has a hand-computed average and is not reported. The bucket of rating 8, with
  votes \<open>2 ^ 53\<close> and \<open>2 ^ 53 + 2\<close>, has the hand-computed average \<open>2 ^ 53 + 1\<close> and is reported as
  \<open>2 ^ 53\<close>, the sum being rounded to a binary64 value.\<close>

theorem aggregate_scenario_differs:
  "expected_mapping scenario_table 9 = Some (380000 / 3)
   \<and> map_of (aggregate scenario_table) 9 = Some (Some 126667)
   \<and> map_of (aggregate scenario_table) 9 \<noteq> Some (Some 127000)
   \<and> expected_mapping scenario_table 10 = Some 70
   \<and> map_of (aggregate scenario_table) 10 = None
   \<and> expected_mapping scenario_table 8 = Some (2 ^ 53 + 1)
   \<and> map_of (aggregate scenario_table) 8 = Some (Some (2 ^ 53))"
  by code_simp

text \<open>
  Claim C2. After the cleaning stage (rows with a missing rating or vote count dropped, then
  duplicates removed, then category labels unified) every row has its rating and its vote
  count.
\<close>

theorem cleaning_no_nulls:
  "\<forall>r \<in> set (cleaning df). imdb_score r \<noteq> None \<and> imdb_votes r \<noteq> None"
  by (auto simp: cleaning_def set_drop_duplicates set_dropna dest!: replace_wrong_shows_score)

theorem cleaning_no_nulls_witness:
  "length raw_table = 8 \<and> length (cleaning raw_table) = 5 \<and>
   list_all (\<lambda>r. imdb_score r \<noteq> None \<and> imdb_votes r \<noteq> None) (cleaning raw_table)"
proof -
  have "length raw_table = 8" "length (cleaning raw_table) = 5"
    by code_simp+
  then show ?thesis
    using cleaning_no_nulls [of raw_table] by (simp add: list_all_iff)
qed

text \<open>
  Claim C3, as amended. The rating buckets of the final report are exactly the buckets of the
  per-bucket listing whose rounded rating lies in the fixed window from 4 to 9; the listing
  itself has one entry for every rounded rating that occurs, with the number of distinct
  titles of that bucket. The distinct-title count plays no part in the exclusion.
\<close>

theorem bucket_exclusion_window:
  "fst ` set (results (analysis_df g)) = {k \<in> fst ` set (score_counts g). 4 \<le> k \<and> k \<le> 9}
   \<and> fst ` set (score_counts g) = {k. \<exists>r \<in> set g. imdb_score r = Some k}
   \<and> (\<forall>k n. (k, n) \<in> set (score_counts g) \<longrightarrow>
         n = card {t. \<exists>r \<in> set g. imdb_score r = Some k \<and> title r = Some t})"
proof (intro conjI allI impI)
  have keys: "fst ` set (score_counts g) = set (group_keys g)"
    by (simp add: score_counts_def image_image)
  show sc: "fst ` set (score_counts g) = {k. \<exists>r \<in> set g. imdb_score r = Some k}"
    by (simp add: keys set_group_keys)
  have "fst ` set (results (analysis_df g)) = set (group_keys (analysis_df g))"
    by (simp add: results_def set_sort_values_desc avg_votes_by_score_def image_image)
  also have "\<dots> = {k. \<exists>r \<in> set g. imdb_score r = Some k \<and> 4 \<le> k \<and> k \<le> 9}"
    by (auto simp: set_group_keys analysis_df_def)
  finally show "fst ` set (results (analysis_df g)) =
      {k \<in> fst ` set (score_counts g). 4 \<le> k \<and> k \<le> 9}"
    unfolding sc by auto
next
  fix k n assume "(k, n) \<in> set (score_counts g)"
  then have "n = nunique (map title (group_rows g k))"
    by (auto simp: score_counts_def)
  moreover have "{t. Some t \<in> set (map title (group_rows g k))} =
      {t. \<exists>r \<in> set g. imdb_score r = Some k \<and> title r = Some t}"
    by (auto simp: group_rows_def image_iff)
  ultimately show "n = card {t. \<exists>r \<in> set g. imdb_score r = Some k \<and> title r = Some t}"
    by (simp only: nunique_card)
qed

theorem bucket_exclusion_window_witness:
  "(3, 1) \<in> set (score_counts (golden_age_shows_rounded (golden_age_shows sample_table)))
   \<and> 3 \<notin> fst ` set (results (analysis_df (golden_age_shows_rounded (golden_age_shows sample_table))))
   \<and> card {t. \<exists>r \<in> set (golden_age_shows_rounded (golden_age_shows sample_table)).
              imdb_score r = Some 3 \<and> title r = Some t} = 1"
proof -
  have m: "(3, 1) \<in> set (score_counts (golden_age_shows_rounded (golden_age_shows sample_table)))"
    by code_simp
  show ?thesis
    using m bucket_exclusion_window [of "golden_age_shows_rounded (golden_age_shows sample_table)"]
    by auto
qed

text \<open>Claim C3 as stated fails: the bucket of rating 5 has two distinct titles, fewer than
  30, and is in the final report.\<close>

theorem small_bucket_reported:
  "(5, 2) \<in> set (score_counts (golden_age_shows_rounded (golden_age_shows sample_table)))
   \<and> (2::nat) < 30
   \<and> (5, Some 2000) \<in> set (results (analysis_df (golden_age_shows_rounded (golden_age_shows sample_table))))"
  by code_simp

text \<open>
  Claim C4. A rating of the form \<open>n + 1/2\<close> is rounded to the even one of its two
  neighbours (the tie rule of IEEE 754), and that is the bucket the row gets; 7.5 and 8.5
  both go to bucket 8.
\<close>

theorem round_even_tie:
  "round_even (of_int n + 1 / 2) = (if even n then n else n + 1)
   \<and> map imdb_score (golden_age_shows_rounded [r\<lparr>imdb_score := Some (of_int n + 1 / 2)\<rparr>]) =
       [Some (of_int (if even n then n else n + 1))]"
proof -
  have "\<lfloor>(of_int n + 1 / 2 :: rat)\<rfloor> = n" by linarith
  then have "round_even (of_int n + 1 / 2) = (if even n then n else n + 1)"
    by (simp add: round_even_def Let_def)
  then show ?thesis
    by (simp add: golden_age_shows_rounded_def round_series_def)
qed

theorem round_even_tie_witness:
  "round_even (75 / 10) = 8 \<and> round_even (85 / 10) = 8"
  using round_even_tie [of 7 undefined] round_even_tie [of 8 undefined] by simp

text \<open>
  Claim C5. Unifying the category labels twice gives the same table as unifying them once;
  each of the six known variants becomes \<open>SHOW\<close>; every other cell, a missing one too,
  is left as it is.
\<close>

theorem replace_wrong_shows_canonical:
  "replace_wrong_shows wrong_shows_list correct_show
     (replace_wrong_shows wrong_shows_list correct_show df) =
   replace_wrong_shows wrong_shows_list correct_show df
   \<and> (\<forall>v \<in> set [''shows'', ''SHOW'', ''tv show'', ''tv shows'', ''tv series'', ''tv''].
        replace wrong_shows_list correct_show (Some v) = Some ''SHOW'')
   \<and> (\<forall>c. c \<notin> Some ` set [''shows'', ''SHOW'', ''tv show'', ''tv shows'', ''tv series'', ''tv'']
        \<longrightarrow> replace wrong_shows_list correct_show c = c)
   \<and> map type (replace_wrong_shows wrong_shows_list correct_show df) =
       map (replace wrong_shows_list correct_show) (map type df)"
proof (intro conjI)
  show "replace_wrong_shows wrong_shows_list correct_show
     (replace_wrong_shows wrong_shows_list correct_show df) =
   replace_wrong_shows wrong_shows_list correct_show df"
    by (simp add: replace_wrong_shows_def replace_idem)
  show "\<forall>v \<in> set [''shows'', ''SHOW'', ''tv show'', ''tv shows'', ''tv series'', ''tv''].
        replace wrong_shows_list correct_show (Some v) = Some ''SHOW''"
    by (simp add: replace_def wrong_shows_list_def correct_show_def)
  show "\<forall>c. c \<notin> Some ` set [''shows'', ''SHOW'', ''tv show'', ''tv shows'', ''tv series'', ''tv'']
        \<longrightarrow> replace wrong_shows_list correct_show c = c"
    by (auto simp: replace_def wrong_shows_list_def split: option.splits)
  show "map type (replace_wrong_shows wrong_shows_list correct_show df) =
       map (replace wrong_shows_list correct_show) (map type df)"
    by (simp add: replace_wrong_shows_def)
qed

theorem replace_wrong_shows_canonical_witness:
  "replace_wrong_shows wrong_shows_list correct_show
     (replace_wrong_shows wrong_shows_list correct_show raw_table) =
   replace_wrong_shows wrong_shows_list correct_show raw_table
   \<and> replace wrong_shows_list correct_show (Some ''tv series'') = Some ''SHOW''
   \<and> replace wrong_shows_list correct_show (Some ''MOVIE'') = Some ''MOVIE''
   \<and> replace wrong_shows_list correct_show None = None"
proof -
  have v: "''tv series'' \<in> set [''shows'', ''SHOW'', ''tv show'', ''tv shows'', ''tv series'', ''tv'']"
    by simp
  have m: "Some ''MOVIE'' \<notin> Some ` set [''shows'', ''SHOW'', ''tv show'', ''tv shows'', ''tv series'', ''tv'']"
    by simp
  have n: "None \<notin> Some ` set [''shows'', ''SHOW'', ''tv show'', ''tv shows'', ''tv series'', ''tv'']"
    by simp
  show ?thesis
    using v m n replace_wrong_shows_canonical [of raw_table] by blast
qed

text \<open>
  Claim C6. After duplicate removal no two rows of the table are equal in every column, and
  removing duplicates a second time changes nothing.
\<close>

theorem drop_duplicates_distinct_idem:
  "distinct (drop_duplicates df) \<and> drop_duplicates (drop_duplicates df) = drop_duplicates df"
  by (simp add: distinct_drop_duplicates drop_duplicates_fixed)

theorem drop_duplicates_distinct_idem_witness:
  "length raw_table = 8 \<and> length (drop_duplicates raw_table) = 7
   \<and> distinct (drop_duplicates raw_table)
   \<and> drop_duplicates (drop_duplicates raw_table) = drop_duplicates raw_table"
proof -
  have "length raw_table = 8" "length (drop_duplicates raw_table) = 7"
    by code_simp+
  then show ?thesis
    using drop_duplicates_distinct_idem [of raw_table] by simp
qed

text \<open>
  Claim C7. The aggregator's output has one pair per rating bucket; the second component is
  the mean of the bucket's vote counts rounded to the nearest integer; the pairs are in
  descending order of that average.
\<close>

theorem results_sorted_desc:
  "sorted_wrt (\<lambda>p q. avg_ge (snd p) (snd q)) (results a)
   \<and> distinct (map fst (results a))
   \<and> fst ` set (results a) = {k. \<exists>r \<in> set a. imdb_score r = Some k}
   \<and> (\<forall>k v. (k, v) \<in> set (results a) \<longrightarrow>
         v = round_series (mean (map imdb_votes (filter (\<lambda>r. imdb_score r = Some k) a))))
   \<and> (\<forall>k v. (k, Some v) \<in> set (results a) \<longrightarrow>
         (\<exists>m. mean (map imdb_votes (filter (\<lambda>r. imdb_score r = Some k) a)) = Some m \<and>
              v = of_int (round_even m) \<and> \<bar>v - m\<bar> \<le> 1 / 2))"
proof -
  have value_of: "v = round_series (mean (map imdb_votes (filter (\<lambda>r. imdb_score r = Some k) a)))"
    if "(k, v) \<in> set (results a)" for k v
  proof -
    from that have "(k, v) \<in> set (avg_votes_by_score a)"
      by (simp add: results_def set_sort_values_desc)
    then show ?thesis
      by (auto simp: avg_votes_by_score_def group_rows_def)
  qed
  have nearest: "\<exists>m. mean (map imdb_votes (filter (\<lambda>r. imdb_score r = Some k) a)) = Some m \<and>
              v = of_int (round_even m) \<and> \<bar>v - m\<bar> \<le> 1 / 2"
    if "(k, Some v) \<in> set (results a)" for k v
  proof -
    from value_of [OF that] obtain m
      where "mean (map imdb_votes (filter (\<lambda>r. imdb_score r = Some k) a)) = Some m"
        and "v = of_int (round_even m)"
      using round_series_Some by metis
    then show ?thesis
      using round_even_nearest [of m] by simp
  qed
  have "sorted_wrt (\<lambda>p q. avg_ge (snd p) (snd q)) (results a)"
    by (simp add: results_def sorted_sort_values_desc)
  moreover have "distinct (map fst (results a))"
    by (rule distinct_keys_results)
  moreover have "fst ` set (results a) = {k. \<exists>r \<in> set a. imdb_score r = Some k}"
    by (simp add: results_def set_sort_values_desc avg_votes_by_score_def image_image
        set_group_keys)
  ultimately show ?thesis
    using value_of nearest by blast
qed

theorem results_sorted_desc_witness:
  "results (analysis_df (golden_age_shows_rounded (golden_age_shows sample_table))) =
     [(9, Some 126667), (5, Some 2000), (8, Some 1000)]
   \<and> sorted_wrt (\<lambda>p q. avg_ge (snd p) (snd q))
        (results (analysis_df (golden_age_shows_rounded (golden_age_shows sample_table))))
   \<and> Some 126667 = round_series (mean (map imdb_votes (filter (\<lambda>r. imdb_score r = Some 9)
        (analysis_df (golden_age_shows_rounded (golden_age_shows sample_table))))))"
proof -
  have e: "results (analysis_df (golden_age_shows_rounded (golden_age_shows sample_table))) =
     [(9, Some 126667), (5, Some 2000), (8, Some 1000)]"
    by code_simp
  then have m: "(9, Some 126667) \<in> set (results (analysis_df (golden_age_shows_rounded (golden_age_shows sample_table))))"
    by simp
  show ?thesis
    using e m results_sorted_desc
      [of "analysis_df (golden_age_shows_rounded (golden_age_shows sample_table))"]
    by blast
qed

text \<open>
  Claim C8. The filtered table holds exactly the rows with \<open>release_year \<ge> 1999\<close> and
  category \<open>SHOW\<close>, in their order: no such row is dropped and no other row is kept.
\<close>

theorem golden_age_shows_filter:
  "golden_age_shows df = filter (\<lambda>r. 1999 \<le> release_year r \<and> type r = Some ''SHOW'') df
   \<and> (\<forall>r. r \<in> set (golden_age_shows df) \<longleftrightarrow>
         r \<in> set df \<and> 1999 \<le> release_year r \<and> type r = Some ''SHOW'')"
  by (auto simp: golden_age_shows_def conj_commute)

theorem golden_age_shows_filter_witness:
  "length sample_table = 11 \<and> length (golden_age_shows sample_table) = 9
   \<and> golden_age_shows sample_table =
       filter (\<lambda>r. 1999 \<le> release_year r \<and> type r = Some ''SHOW'') sample_table"
proof -
  have "length sample_table = 11" "length (golden_age_shows sample_table) = 9"
    by code_simp+
  then show ?thesis
    using golden_age_shows_filter [of sample_table] by simp
qed

text \<open>
  Claim C9. On the empty table the pipeline, and the aggregation alone, give the empty
  sequence of pairs; no stage of the model has an error branch.
\<close>

theorem pipeline_empty: "pipeline [] = [] \<and> aggregate [] = []"
  by (simp add: pipeline_def aggregate_def cleaning_def dropna_def drop_duplicates_def duplicated_def
      replace_wrong_shows_def golden_age_shows_def golden_age_shows_rounded_def analysis_df_def
      results_def avg_votes_by_score_def group_keys_def sort_values_desc_def)

text \<open>
  Claim C10. \<^verbatim>\<open>replace_wrong_shows\<close> keeps the number and the order of the rows, and in each
  row the columns name, character, role, title, release_year, genres, imdb_score and
  imdb_votes.
\<close>

theorem replace_wrong_shows_frame:
  "length (replace_wrong_shows ws c df) = length df \<and>
   (\<forall>i < length df.
      name (replace_wrong_shows ws c df ! i) = name (df ! i) \<and>
      character (replace_wrong_shows ws c df ! i) = character (df ! i) \<and>
      role (replace_wrong_shows ws c df ! i) = role (df ! i) \<and>
      title (replace_wrong_shows ws c df ! i) = title (df ! i) \<and>
      release_year (replace_wrong_shows ws c df ! i) = release_year (df ! i) \<and>
      genres (replace_wrong_shows ws c df ! i) = genres (df ! i) \<and>
      imdb_score (replace_wrong_shows ws c df ! i) = imdb_score (df ! i) \<and>
      imdb_votes (replace_wrong_shows ws c df ! i) = imdb_votes (df ! i))"
  by (simp add: replace_wrong_shows_def)

theorem replace_wrong_shows_frame_witness:
  "0 < length raw_table
   \<and> type (raw_table ! 0) = Some ''tv''
   \<and> type (replace_wrong_shows wrong_shows_list correct_show raw_table ! 0) = Some ''SHOW''
   \<and> title (replace_wrong_shows wrong_shows_list correct_show raw_table ! 0) = title (raw_table ! 0)
   \<and> imdb_votes (replace_wrong_shows wrong_shows_list correct_show raw_table ! 0) =
       imdb_votes (raw_table ! 0)"
proof -
  have l: "0 < length raw_table"
    by code_simp
  have t: "type (raw_table ! 0) = Some ''tv''"
    "type (replace_wrong_shows wrong_shows_list correct_show raw_table ! 0) = Some ''SHOW''"
    by code_simp+
  show ?thesis
    using l t replace_wrong_shows_frame [of wrong_shows_list correct_show raw_table] by blast
qed

end
